theory Spec2Isabelle
  imports Complex_Main "HOL-Library.Word"
begin

unbundle bit_operations_syntax

section \<open>Text primitives of the Python runtime\<close>

text \<open>
  A Python \<open>str\<close> is a sequence of code points. It is modelled as a \<open>string\<close> whose
  characters are read as the code points U+0000 to U+00FF, so \<open>length\<close> counts what
  Python's \<open>len\<close> counts.

  \<open>is_space\<close> is \<open>str.isspace\<close> on one code point, which is also the class \<open>\s\<close> of
  \<open>re\<close> on \<open>str\<close> patterns and the separator set of \<open>str.split()\<close> and \<open>str.strip()\<close>:
  below U+0100 these are 9 to 13, 28 to 32, 133 and 160.
\<close>

definition is_space :: "char \<Rightarrow> bool" where
  "is_space c = (of_char c \<in> {9, 10, 11, 12, 13, 28, 29, 30, 31, 32, 133, 160 :: nat})"

definition nl :: char where
  "nl = CHR 0x0A"

text \<open>\<open>s.strip()\<close>: whitespace removed at both ends.\<close>

definition strip :: "string \<Rightarrow> string" where
  "strip s = rev (dropWhile is_space (rev (dropWhile is_space s)))"

text \<open>
  \<open>s.split()\<close> with no argument: the maximal runs of non-whitespace, in order; no empty
  string is ever returned. \<open>cur\<close> is the word being read.
\<close>

fun split_ws :: "string \<Rightarrow> string \<Rightarrow> string list" where
  "split_ws cur [] = (if cur = [] then [] else [cur])"
| "split_ws cur (c # cs) =
     (if is_space c then (if cur = [] then split_ws [] cs else cur # split_ws [] cs)
      else split_ws (cur @ [c]) cs)"

definition str_split :: "string \<Rightarrow> string list" where
  "str_split s = split_ws [] s"

text \<open>
  \<open>re.split(r'\n\n+', s)\<close>: the pieces of \<open>s\<close> between the maximal runs of two or more
  newlines. The search is leftmost and \<open>+\<close> is greedy, so a run is consumed whole; a single
  newline stays inside its piece. The result always has at least one piece.
\<close>

function split_blank :: "string \<Rightarrow> string \<Rightarrow> string list" where
  "split_blank cur [] = [cur]"
| "split_blank cur [c] = [cur @ [c]]"
| "split_blank cur (c # d # cs) =
     (if c = nl \<and> d = nl then cur # split_blank [] (dropWhile (\<lambda>x. x = nl) cs)
      else split_blank (cur @ [c]) (d # cs))"
  by pat_completeness auto
termination
proof (relation "measure (\<lambda>(cur, s). length s)")
  fix cur :: string and c d :: char and cs :: string
  have "length (dropWhile (\<lambda>x. x = nl) cs) \<le> length cs"
    by (rule length_dropWhile_le)
  then show "(([], dropWhile (\<lambda>x. x = nl) cs), (cur, c # d # cs))
      \<in> measure (\<lambda>(cur, s). length s)"
    by simp
qed simp_all

definition split_paragraphs :: "string \<Rightarrow> string list" where
  "split_paragraphs s = split_blank [] s"

section \<open>The double-precision product in the token estimate\<close>

text \<open>
  \<open>estimate_tokens\<close> computes \<open>int(words * 1.3)\<close>: the integer \<open>words\<close> is converted to
  an IEEE 754 double, multiplied by the double nearest to 1.3, which is
  \<open>5854679515581645 / 2^52\<close>, the product is rounded to 53 significant bits (to nearest,
  ties to even), and \<open>int\<close> truncates. The model follows these steps on natural numbers.
  The exponent range of a double (beyond \<open>2^1023\<close>) is never reached by a word count.
\<close>

function bit_length :: "int \<Rightarrow> nat" where
  "bit_length n = (if n \<le> 0 then 0 else Suc (bit_length (n div 2)))"
  by pat_completeness auto
termination
  by (relation "measure nat") auto

declare bit_length.simps [simp del]

text \<open>The integer nearest to \<open>p / 2^s\<close>, ties to the even one.\<close>

definition round_half_even :: "int \<Rightarrow> nat \<Rightarrow> int" where
  "round_half_even p s =
     (let q = p div 2 ^ s; r = p mod 2 ^ s
      in if 2 * r > 2 ^ s \<or> (2 * r = 2 ^ s \<and> odd q) then q + 1 else q)"

text \<open>\<open>float(n)\<close> for a non-negative integer: \<open>n\<close> rounded to 53 significant bits.\<close>

definition py_float :: "int \<Rightarrow> int" where
  "py_float n = (let s = bit_length n - 53 in round_half_even n s * 2 ^ s)"

definition double_1_3 :: int where
  "double_1_3 = 5854679515581645"

text \<open>
  \<open>int(n * 1.3)\<close> for \<open>n \<ge> 0\<close>: \<open>p\<close> is the exact product scaled by \<open>2^52\<close>, \<open>m * 2^s\<close> its
  rounding to 53 significant bits, and the division by \<open>2^52\<close> the truncation.
\<close>

definition int_mul_1_3 :: "int \<Rightarrow> int" where
  "int_mul_1_3 n =
     (let p = py_float n * double_1_3;
          s = bit_length p - 53;
          m = round_half_even p s
      in (m * 2 ^ s) div 2 ^ 52)"

section \<open>Token estimate\<close>

definition estimate_tokens :: "string \<Rightarrow> int" where
  "estimate_tokens txt = (let words = int (length (str_split txt)) in int_mul_1_3 words)"


section \<open>Content hash\<close>

text \<open>
  \<open>compute_hash\<close> is \<open>hashlib.sha256(text.encode('utf-8')).hexdigest()\<close>. SHA-256
  (FIPS 180-4) is written out on integers below \<open>2^32\<close>, every addition reduced
  modulo \<open>2^32\<close>; bytes are integers below 256. The round constants and the initial
  hash value are given in decimal.
\<close>

definition utf8_encode :: "string \<Rightarrow> int list" where
  "utf8_encode s = concat (map (\<lambda>c. let n = (of_char c :: int)
       in if n < 128 then [n] else [192 + n div 64, 128 + n mod 64]) s)"

definition sha256_k :: "int list" where
  "sha256_k =
    [1116352408, 1899447441, 3049323471, 3921009573, 961987163, 1508970993,
     2453635748, 2870763221, 3624381080, 310598401, 607225278, 1426881987,
     1925078388, 2162078206, 2614888103, 3248222580, 3835390401, 4022224774,
     264347078, 604807628, 770255983, 1249150122, 1555081692, 1996064986,
     2554220882, 2821834349, 2952996808, 3210313671, 3336571891, 3584528711,
     113926993, 338241895, 666307205, 773529912, 1294757372, 1396182291,
     1695183700, 1986661051, 2177026350, 2456956037, 2730485921, 2820302411,
     3259730800, 3345764771, 3516065817, 3600352804, 4094571909, 275423344,
     430227734, 506948616, 659060556, 883997877, 958139571, 1322822218,
     1537002063, 1747873779, 1955562222, 2024104815, 2227730452, 2361852424,
     2428436474, 2756734187, 3204031479, 3329325298]"

definition sha256_h0 :: "int list" where
  "sha256_h0 =
    [1779033703, 3144134277, 1013904242, 2773480762,
     1359893119, 2600822924, 528734635, 1541459225]"

definition add32 :: "int \<Rightarrow> int \<Rightarrow> int" where
  "add32 x y = (x + y) mod 4294967296"

definition rotr :: "nat \<Rightarrow> int \<Rightarrow> int" where
  "rotr n w = w div 2 ^ n + (w mod 2 ^ n) * 2 ^ (32 - n)"

text \<open>Padding: the byte \<open>0x80\<close>, zeros up to 56 modulo 64, the bit length on 8 bytes.\<close>

definition sha256_pad :: "int list \<Rightarrow> int list" where
  "sha256_pad bs = (let l = int (length bs) in
     bs @ [128] @ replicate (nat ((55 - l) mod 64)) 0
        @ map (\<lambda>i. (8 * l) div 256 ^ i mod 256) [7, 6, 5, 4, 3, 2, 1, 0])"

fun be_words :: "int list \<Rightarrow> int list" where
  "be_words (a # b # c # d # bs) = (a * 16777216 + b * 65536 + c * 256 + d) # be_words bs"
| "be_words _ = []"

primrec blocks16 :: "nat \<Rightarrow> int list \<Rightarrow> int list list" where
  "blocks16 0 ws = []"
| "blocks16 (Suc k) ws = take 16 ws # blocks16 k (drop 16 ws)"

text \<open>The message schedule: \<open>k\<close> more words appended to the sixteen of the block.\<close>

primrec schedule :: "nat \<Rightarrow> int list \<Rightarrow> int list" where
  "schedule 0 ws = ws"
| "schedule (Suc k) ws =
     (let n = length ws;
          w15 = ws ! (n - 15); w2 = ws ! (n - 2);
          s0 = rotr 7 w15 XOR rotr 18 w15 XOR (w15 div 8);
          s1 = rotr 17 w2 XOR rotr 19 w2 XOR (w2 div 1024)
      in schedule k (ws @ [add32 (add32 (ws ! (n - 16)) s0) (add32 (ws ! (n - 7)) s1)]))"

fun sha256_round :: "int list \<Rightarrow> int \<times> int \<Rightarrow> int list" where
  "sha256_round [a, b, c, d, e, f, g, h] (k, w) =
     (let S1 = rotr 6 e XOR rotr 11 e XOR rotr 25 e;
          ch = (e AND f) XOR ((4294967295 - e) AND g);
          t1 = add32 (add32 (add32 h S1) (add32 ch k)) w;
          S0 = rotr 2 a XOR rotr 13 a XOR rotr 22 a;
          maj = (a AND b) XOR (a AND c) XOR (b AND c);
          t2 = add32 S0 maj
      in [add32 t1 t2, a, b, c, add32 d t1, e, f, g])"
| "sha256_round st _ = st"

definition sha256_block :: "int list \<Rightarrow> int list \<Rightarrow> int list" where
  "sha256_block st blk = map2 add32 st (foldl sha256_round st (zip sha256_k (schedule 48 blk)))"

definition hex_digit :: "int \<Rightarrow> char" where
  "hex_digit n = ''0123456789abcdef'' ! nat n"

definition hex_word :: "int \<Rightarrow> string" where
  "hex_word w = map (\<lambda>i. hex_digit (w div 16 ^ i mod 16)) [7, 6, 5, 4, 3, 2, 1, 0]"

definition sha256_hex :: "int list \<Rightarrow> string" where
  "sha256_hex bs = (let ws = be_words (sha256_pad bs)
     in concat (map hex_word (foldl sha256_block sha256_h0 (blocks16 (length ws div 16) ws))))"

definition compute_hash :: "string \<Rightarrow> string" where
  "compute_hash txt = sha256_hex (utf8_encode txt)"

section \<open>Data model\<close>

text \<open>
  The \<open>metadata\<close> dictionary of a chunk has the keys \<open>session_id\<close>, \<open>message_step\<close>,
  \<open>message_role\<close> and, on the sub-chunks of a long message only, \<open>sub_chunk\<close>.
\<close>

record metadata =
  session_id :: int
  message_step :: int
  message_role :: string
  sub_chunk :: "int option"

record chunk =
  heading :: "string option"
  "text" :: string
  ord :: int
  kind :: string
  token_est :: int
  hash :: "string option"
  metadata :: "metadata option"

text \<open>The three attributes that \<open>ChunkSplitter.__init__\<close> stores, unchecked.\<close>

record ChunkSplitter =
  max_chunk_tokens :: int
  min_chunk_tokens :: int
  overlap_tokens :: int

definition ChunkSplitter_init :: "int \<Rightarrow> int \<Rightarrow> int \<Rightarrow> ChunkSplitter" where
  "ChunkSplitter_init max_tokens min_tokens overlap =
     \<lparr>max_chunk_tokens = max_tokens, min_chunk_tokens = min_tokens, overlap_tokens = overlap\<rparr>"

text \<open>A row of the \<open>messages\<close> table, as far as the splitter reads it.\<close>

record message =
  step :: int
  role :: string
  content :: string

datatype error = ValueError string


section \<open>Header boundaries of a markdown document\<close>

text \<open>
  The pattern is \<open>^(#{2,3})\s+(.+)$\<close> with \<open>re.MULTILINE\<close>. \<open>match_header s\<close> is the
  match attempted where \<open>s\<close> begins at the start of a line; it returns the two groups
  and the text after the match.
  \<^item> \<open>#{2,3}\<close> followed by \<open>\s\<close>: the line starts with exactly two or three \<open>#\<close>, then
    a whitespace character (with four or more \<open>#\<close>, neither count is followed by one).
  \<^item> \<open>\s+\<close> is greedy and may cross newlines. When a character follows the whitespace
    run, it is not a newline, and \<open>.+\<close> takes the rest of that line, where \<open>$\<close> holds.
  \<^item> When the run reaches the end of the text, \<open>\s+\<close> gives characters back until \<open>.+\<close>
    starts on a whitespace character other than a newline: the last such character of
    the run, which must not be its first. Only newlines follow it, so it is the whole
    heading.
\<close>

definition match_header :: "string \<Rightarrow> (string \<times> string \<times> string) option" where
  "match_header s =
     (let level = takeWhile (\<lambda>c. c = CHR ''#'') s;
          after_level = dropWhile (\<lambda>c. c = CHR ''#'') s;
          ws = takeWhile is_space after_level;
          rest = dropWhile is_space after_level
      in if (length level = 2 \<or> length level = 3) \<and> ws \<noteq> [] then
           (if rest \<noteq> [] then
              Some (level, takeWhile (\<lambda>c. c \<noteq> nl) rest, dropWhile (\<lambda>c. c \<noteq> nl) rest)
            else
              (let ws' = rev (dropWhile (\<lambda>c. c = nl) (rev ws))
               in if 2 \<le> length ws' then Some (level, [last ws'], drop (length ws') ws)
                  else None))
         else None)"

text \<open>
  \<open>header_pattern.split(markdown)\<close>: the text before the first match, then for every
  match its two groups and the text up to the next match. \<open>bol\<close> tells whether the
  position is the start of a line, where alone \<open>^\<close> holds; \<open>cur\<close> is the piece being read.
\<close>

function header_scan :: "bool \<Rightarrow> string \<Rightarrow> string \<Rightarrow> string list" where
  "header_scan bol cur s =
     (case (if bol then match_header s else None) of
        Some (level, hdg, rest) \<Rightarrow> cur # level # hdg # header_scan False [] rest
      | None \<Rightarrow> (case s of [] \<Rightarrow> [cur] | c # cs \<Rightarrow> header_scan (c = nl) (cur @ [c]) cs))"
  by pat_completeness auto
termination
proof -
  have shorter: "length r < length s" if m: "match_header s = Some (l, h, r)" for s l h r
  proof -
    let ?a = "dropWhile (\<lambda>c. c = CHR ''#'') s"
    from m have "takeWhile (\<lambda>c. c = CHR ''#'') s \<noteq> []"
      by (auto simp: match_header_def Let_def split: if_splits)
    moreover have "length (takeWhile (\<lambda>c. c = CHR ''#'') s) + length ?a = length s"
      by (metis length_append takeWhile_dropWhile_id)
    ultimately have a: "length ?a < length s"
      by (cases "takeWhile (\<lambda>c. c = CHR ''#'') s") auto
    have "length (dropWhile (\<lambda>c. c \<noteq> nl) (dropWhile is_space ?a)) \<le> length ?a"
      by (meson length_dropWhile_le order_trans)
    moreover have "length (drop k (takeWhile is_space ?a)) \<le> length ?a" for k
      by (simp add: le_diff_conv trans_le_add1 length_takeWhile_le)
    ultimately have "length r \<le> length ?a"
      using m by (auto simp: match_header_def Let_def split: if_splits)
    with a show ?thesis by simp
  qed
  show ?thesis
    by (relation "measure (\<lambda>(bol, cur, s). length s)")
       (auto split: if_splits dest: shorter)
qed

declare header_scan.simps [simp del]

definition header_split :: "string \<Rightarrow> string list" where
  "header_split markdown = header_scan True [] markdown"

section \<open>The splitters\<close>

text \<open>
  The flush that \<open>split_plaintext\<close> and \<open>split_markdown\<close> each write out twice: when the
  buffer is not blank, a chunk is appended whose text is the trimmed buffer and whose
  token estimate and hash are taken from the buffer as it stands, and the counter
  advances.
\<close>

definition flush :: "string option \<Rightarrow> string \<Rightarrow> string \<Rightarrow> chunk list \<times> int \<Rightarrow> chunk list \<times> int"
  where
  "flush hdg knd current_chunk st =
     (case st of (chunks, ord_counter) \<Rightarrow>
        if strip current_chunk \<noteq> [] then
          (chunks @ [\<lparr>heading = hdg, text = strip current_chunk, ord = ord_counter, kind = knd,
                      token_est = estimate_tokens current_chunk,
                      hash = Some (compute_hash current_chunk), metadata = None\<rparr>],
           ord_counter + 1)
        else (chunks, ord_counter))"

text \<open>
  The paragraph loop, the same in both splitters up to the heading and the kind of the
  chunks. The state is \<open>(chunks, current_chunk, current_tokens, ord_counter)\<close>.
\<close>

fun accumulate ::
  "string option \<Rightarrow> string \<Rightarrow> int \<Rightarrow> string list \<Rightarrow> chunk list \<times> string \<times> int \<times> int
     \<Rightarrow> chunk list \<times> string \<times> int \<times> int" where
  "accumulate hdg knd T [] st = st"
| "accumulate hdg knd T (para # paras) (chunks, current_chunk, current_tokens, ord_counter) =
     (let para_tokens = estimate_tokens para
      in if current_tokens + para_tokens > T then
           (case flush hdg knd current_chunk (chunks, ord_counter) of (chunks', ord_counter') \<Rightarrow>
              accumulate hdg knd T paras (chunks', para @ [nl, nl], para_tokens, ord_counter'))
         else
           accumulate hdg knd T paras
             (chunks, current_chunk @ para @ [nl, nl], current_tokens + para_tokens, ord_counter))"

definition split_plaintext :: "ChunkSplitter \<Rightarrow> string \<Rightarrow> string \<Rightarrow> chunk list" where
  "split_plaintext self txt knd =
     (let paragraphs = split_paragraphs txt
      in case accumulate None knd (max_chunk_tokens self) paragraphs ([], [], 0, 0) of
           (chunks, current_chunk, current_tokens, ord_counter) \<Rightarrow>
             fst (flush None knd current_chunk (chunks, ord_counter)))"

text \<open>
  The header sections of \<open>split_markdown\<close>: the loop from index 1 on, three list entries
  at a time. Fewer than three remaining entries are skipped by the test
  \<open>i + 2 < len(sections)\<close>.
\<close>

fun markdown_sections :: "int \<Rightarrow> string list \<Rightarrow> chunk list \<times> int \<Rightarrow> chunk list \<times> int" where
  "markdown_sections T (level # hdg # content0 # rest) (chunks, ord_counter) =
     (let body = strip content0;
          full_text = level @ '' '' @ hdg @ [nl, nl] @ body;
          tokens = estimate_tokens full_text
      in if tokens > T then
           (let paragraphs = split_paragraphs body;
                current_chunk_text = level @ '' '' @ hdg @ [nl, nl];
                current_tokens = estimate_tokens current_chunk_text
            in case accumulate (Some hdg) ''doc'' T paragraphs
                      (chunks, current_chunk_text, current_tokens, ord_counter) of
                 (chunks', current_chunk_text', current_tokens', ord_counter') \<Rightarrow>
                   markdown_sections T rest
                     (flush (Some hdg) ''doc'' current_chunk_text' (chunks', ord_counter')))
         else
           markdown_sections T rest
             (chunks @ [\<lparr>heading = Some hdg, text = full_text, ord = ord_counter, kind = ''doc'',
                         token_est = tokens, hash = Some (compute_hash full_text),
                         metadata = None\<rparr>],
              ord_counter + 1))"
| "markdown_sections T sections st = st"

definition split_markdown :: "ChunkSplitter \<Rightarrow> string \<Rightarrow> chunk list" where
  "split_markdown self markdown =
     (case header_split markdown of
        [] \<Rightarrow> []
      | pre # sections \<Rightarrow>
          (let txt = strip pre;
               st = (if txt \<noteq> [] then
                       ([\<lparr>heading = None, text = txt, ord = 0, kind = ''doc'',
                          token_est = estimate_tokens txt, hash = Some (compute_hash txt),
                          metadata = None\<rparr>], 1)
                     else ([], 0))
           in fst (markdown_sections (max_chunk_tokens self) sections st)))"

text \<open>\<open>str\<close> of an integer, for the f-string of a message heading.\<close>

function digits :: "int \<Rightarrow> string" where
  "digits n = (if n < 10 then [''0123456789'' ! nat n]
               else digits (n div 10) @ [''0123456789'' ! nat (n mod 10)])"
  by pat_completeness auto
termination
  by (relation "measure nat") auto

declare digits.simps [simp del]

definition str_int :: "int \<Rightarrow> string" where
  "str_int i = (if i < 0 then CHR ''-'' # digits (- i) else digits i)"

text \<open>
  The inner loop over \<open>enumerate(sub_chunks)\<close>: each sub-chunk of a long message gets the
  running counter as its \<open>ord\<close> and its index in the message as \<open>sub_chunk\<close>.
\<close>

fun relabel :: "int \<Rightarrow> message \<Rightarrow> (nat \<times> chunk) list \<Rightarrow> chunk list \<times> int \<Rightarrow> chunk list \<times> int"
  where
  "relabel sid msg [] st = st"
| "relabel sid msg ((i, c) # rest) (chunks, ord_counter) =
     relabel sid msg rest
       (chunks @ [c\<lparr>ord := ord_counter,
                    metadata := Some \<lparr>session_id = sid, message_step = step msg,
                                       message_role = role msg, sub_chunk = Some (int i)\<rparr>\<rparr>],
        ord_counter + 1)"

text \<open>The loop over the messages of a session (in \<open>step\<close> order, as the query returns them).\<close>

fun messages_loop ::
  "ChunkSplitter \<Rightarrow> int \<Rightarrow> message list \<Rightarrow> chunk list \<times> int \<Rightarrow> chunk list \<times> int" where
  "messages_loop self sid [] st = st"
| "messages_loop self sid (msg # msgs) (chunks, ord_counter) =
     (let knd = (if role msg = ''assistant'' then ''ai'' else ''note'');
          tokens = estimate_tokens (content msg)
      in if tokens > max_chunk_tokens self then
           messages_loop self sid msgs
             (relabel sid msg (enumerate 0 (split_plaintext self (content msg) knd))
                (chunks, ord_counter))
         else
           messages_loop self sid msgs
             (chunks @ [\<lparr>heading = Some (''Message '' @ str_int (step msg) @ '' ('' @ role msg @ '')''),
                         text = content msg, ord = ord_counter, kind = knd, token_est = tokens,
                         hash = Some (compute_hash (content msg)),
                         metadata = Some \<lparr>session_id = sid, message_step = step msg,
                                            message_role = role msg, sub_chunk = None\<rparr>\<rparr>],
              ord_counter + 1))"

text \<open>
  \<open>split_session_messages\<close>: the database is read first. \<open>session\<close> is the row of the
  session query, \<open>None\<close> when there is none, and \<open>messages\<close> the rows of the message
  query. The session metadata returned with the chunks copies columns of the session row,
  which stands for it here.
\<close>

definition split_session_messages ::
  "ChunkSplitter \<Rightarrow> 's option \<Rightarrow> message list \<Rightarrow> int \<Rightarrow> error + (chunk list \<times> 's)" where
  "split_session_messages self session messages sid =
     (case session of
        None \<Rightarrow> Inl (ValueError (''Session '' @ str_int sid @ '' not found''))
      | Some row \<Rightarrow> Inr (fst (messages_loop self sid messages ([], 0)), row))"

section \<open>Context budgeting\<close>

text \<open>A row of the search result, as far as \<open>build_rag_context\<close> reads it.\<close>

record search_result =
  chunk_id :: int
  res_heading :: "string option"
  res_text :: string
  res_token_est :: "int option"
  doc_title :: string
  module :: string
  source :: "string option"

record source_entry =
  src_chunk_id :: int
  src_doc_title :: string
  src_module :: string
  src_heading :: "string option"
  src_source :: "string option"

text \<open>\<open>result['token_est'] or 0\<close>: a missing estimate counts as 0.\<close>

definition chunk_tokens :: "search_result \<Rightarrow> int" where
  "chunk_tokens result = (case res_token_est result of None \<Rightarrow> 0 | Some t \<Rightarrow> t)"

text \<open>The block appended for a chunk; a missing or empty heading prints as \<open>(no heading)\<close>.\<close>

definition format_chunk :: "search_result \<Rightarrow> string" where
  "format_chunk result =
     (let hdg = (case res_heading result of
                  None \<Rightarrow> ''(no heading)''
                | Some h \<Rightarrow> if h = [] then ''(no heading)'' else h)
      in ''## '' @ hdg @ [nl, nl] @ res_text result @ [nl, nl])"

definition source_of :: "search_result \<Rightarrow> source_entry" where
  "source_of result =
     \<lparr>src_chunk_id = chunk_id result, src_doc_title = doc_title result,
      src_module = module result, src_heading = res_heading result,
      src_source = source result\<rparr>"

text \<open>
  The accumulation loop; the state is \<open>(context_parts, total_tokens, sources)\<close>. The
  \<open>break\<close> returns the state as it is and looks at no further result.
\<close>

fun context_loop ::
  "int \<Rightarrow> search_result list \<Rightarrow> string list \<times> int \<times> source_entry list
     \<Rightarrow> string list \<times> int \<times> source_entry list" where
  "context_loop max_tokens [] st = st"
| "context_loop max_tokens (result # results) (context_parts, total_tokens, sources) =
     (if total_tokens + chunk_tokens result > max_tokens then
        (context_parts, total_tokens, sources)
      else
        context_loop max_tokens results
          (context_parts @ [format_chunk result], total_tokens + chunk_tokens result,
           sources @ [source_of result]))"

text \<open>\<open>results\<close> is what \<open>fts_search\<close> returned, best match first.\<close>

definition build_rag_context :: "search_result list \<Rightarrow> int \<Rightarrow> string \<times> source_entry list" where
  "build_rag_context results max_tokens =
     (case context_loop max_tokens results ([], 0, []) of
        (context_parts, total_tokens, sources) \<Rightarrow> (concat context_parts, sources))"

section \<open>Auxiliary predicates\<close>

text \<open>
  The invariant of every splitting loop: the chunks made so far carry the numbers
  \<open>0, 1, \<dots>\<close> in order, and the counter is their count.
\<close>

definition dense :: "chunk list \<times> int \<Rightarrow> bool" where
  "dense st = (case st of (chunks, ord_counter) \<Rightarrow>
     map ord chunks = map int [0..<length chunks] \<and> ord_counter = int (length chunks))"

text \<open>A chunk renumbered \<open>k\<close> places later.\<close>

definition shift :: "int \<Rightarrow> chunk \<Rightarrow> chunk" where
  "shift k c = c\<lparr>ord := ord c + k\<rparr>"

text \<open>
  What one message adds to the chunk list when the counter stands at \<open>n\<close>, in closed form;
  \<open>messages_loop_step\<close> below shows that the loop of \<open>split_session_messages\<close> adds exactly this.
\<close>

definition message_block :: "ChunkSplitter \<Rightarrow> int \<Rightarrow> int \<Rightarrow> message \<Rightarrow> chunk list" where
  "message_block self sid n msg =
     (let knd = (if role msg = ''assistant'' then ''ai'' else ''note'')
      in if estimate_tokens (content msg) > max_chunk_tokens self then
           map (\<lambda>(i, c). c\<lparr>ord := n + int i,
                  metadata := Some \<lparr>session_id = sid, message_step = step msg,
                                     message_role = role msg, sub_chunk = Some (int i)\<rparr>\<rparr>)
             (enumerate 0 (split_plaintext self (content msg) knd))
         else
           [\<lparr>heading = Some (''Message '' @ str_int (step msg) @ '' ('' @ role msg @ '')''),
             text = content msg, ord = n, kind = knd,
             token_est = estimate_tokens (content msg),
             hash = Some (compute_hash (content msg)),
             metadata = Some \<lparr>session_id = sid, message_step = step msg,
                                message_role = role msg, sub_chunk = None\<rparr>\<rparr>])"

section \<open>The double product is exact for every realistic word count\<close>

lemma bit_length_bounds:
  "0 < n \<Longrightarrow> 2 ^ (bit_length n - 1) \<le> n \<and> n < 2 ^ bit_length n"
proof (induction n rule: bit_length.induct)
  case (1 n)
  show ?case
  proof (cases "0 < n div 2")
    case True
    with 1 have ih: "2 ^ (bit_length (n div 2) - 1) \<le> n div 2" "n div 2 < 2 ^ bit_length (n div 2)"
      by auto
    from True have pos: "0 < bit_length (n div 2)"
      by (subst bit_length.simps) simp
    have bl: "bit_length n = Suc (bit_length (n div 2))"
      using 1(2) by (subst bit_length.simps) simp
    from pos have "(2::int) ^ bit_length (n div 2) = 2 * 2 ^ (bit_length (n div 2) - 1)"
      by (cases "bit_length (n div 2)") auto
    with ih show ?thesis
      unfolding bl by (simp, linarith)
  next
    case False
    with 1(2) have n1: "n = 1" by linarith
    have "bit_length (1::int) = Suc (bit_length 0)"
      by (subst bit_length.simps) simp
    also have "bit_length 0 = 0"
      by (subst bit_length.simps) simp
    finally have "bit_length (1::int) = 1" by simp
    with n1 show ?thesis by simp
  qed
qed

lemma bit_length_le: "0 \<le> n \<Longrightarrow> n < 2 ^ k \<Longrightarrow> bit_length n \<le> k"
proof (cases "0 < n")
  case True
  assume "n < 2 ^ k"
  with bit_length_bounds [OF True] have "(2::int) ^ (bit_length n - 1) < 2 ^ k" by linarith
  then have "bit_length n - 1 < k" by (simp add: power_strict_increasing_iff)
  then show ?thesis by linarith
next
  case False
  assume "0 \<le> n"
  with False have "n = 0" by simp
  then show ?thesis by (subst bit_length.simps) simp
qed

lemma bit_length_gt: "2 ^ k \<le> n \<Longrightarrow> k < bit_length n"
proof -
  assume a: "2 ^ k \<le> n"
  then have "0 < n" by (smt (verit) zero_less_power)
  from bit_length_bounds [OF this] a have "(2::int) ^ k < 2 ^ bit_length n" by linarith
  then show ?thesis by (simp add: power_strict_increasing_iff)
qed

lemma round_half_even_bounds:
  assumes "0 \<le> p"
  shows "p div 2 ^ s \<le> round_half_even p s"
    and "2 * (round_half_even p s * 2 ^ s) \<le> 2 * p + 2 ^ s"
proof -
  let ?d = "(2::int) ^ s"
  have d: "0 < ?d" by simp
  have dm: "p = p div ?d * ?d + p mod ?d" using div_mult_mod_eq [of p ?d] by simp
  have r: "0 \<le> p mod ?d" "p mod ?d < ?d" by simp_all
  show "p div 2 ^ s \<le> round_half_even p s"
    by (simp add: round_half_even_def Let_def)
  have "round_half_even p s = p div ?d \<or>
        (round_half_even p s = p div ?d + 1 \<and> ?d \<le> 2 * (p mod ?d))"
    by (auto simp: round_half_even_def Let_def)
  then show "2 * (round_half_even p s * 2 ^ s) \<le> 2 * p + 2 ^ s"
  proof
    assume e: "round_half_even p s = p div ?d"
    have "p div ?d * ?d \<le> p" using dm r by linarith
    with d show ?thesis unfolding e by linarith
  next
    assume e: "round_half_even p s = p div ?d + 1 \<and> ?d \<le> 2 * (p mod ?d)"
    have "(p div ?d + 1) * ?d = p div ?d * ?d + ?d" by (simp add: algebra_simps)
    with e dm show ?thesis by (smt (verit))
  qed
qed


lemma py_float_small: "0 \<le> n \<Longrightarrow> n < 2 ^ 53 \<Longrightarrow> py_float n = n"
proof -
  assume "0 \<le> n" "n < 2 ^ 53"
  then have "bit_length n \<le> 53" by (rule bit_length_le)
  then show ?thesis by (simp add: py_float_def round_half_even_def)
qed

text \<open>Rounding to 53 significant bits never yields less than the smaller of \<open>p\<close> and \<open>2^52\<close>.\<close>

lemma round53_lower:
  assumes "0 \<le> p"
  shows "min p (2 ^ 52) \<le> round_half_even p (bit_length p - 53) * 2 ^ (bit_length p - 53)"
proof (cases "bit_length p \<le> 53")
  case True
  then show ?thesis by (simp add: round_half_even_def)
next
  case False
  define s where "s = bit_length p - 53"
  from False have bl: "bit_length p - 1 = s + 52" and spos: "0 < bit_length p"
    by (simp_all add: s_def)
  have "0 < p"
  proof (rule ccontr)
    assume "\<not> 0 < p"
    then have "bit_length p = 0" by (subst bit_length.simps) simp
    with spos show False by simp
  qed
  from bit_length_bounds [OF this] have "(2::int) ^ (bit_length p - 1) \<le> p" by blast
  then have le: "(2::int) ^ 52 * 2 ^ s \<le> p" unfolding bl by (simp add: power_add mult.commute)
  have "(2::int) ^ 52 = 2 ^ 52 * 2 ^ s div 2 ^ s" by simp
  also have "\<dots> \<le> p div 2 ^ s" using le by (intro zdiv_mono1) simp_all
  also have "\<dots> \<le> round_half_even p s" using assms by (rule round_half_even_bounds)
  finally have "(2::int) ^ 52 * 1 \<le> round_half_even p s * 2 ^ s"
    by (intro mult_mono) simp_all
  then show ?thesis by (simp add: s_def)
qed

lemma int_mul_1_3_pos: "1 \<le> n \<Longrightarrow> 1 \<le> int_mul_1_3 n"
proof -
  assume n: "1 \<le> n"
  have "min n (2 ^ 52) \<le> py_float n"
    using round53_lower [of n] n by (simp add: py_float_def Let_def)
  with n have "1 \<le> py_float n" by simp
  then have p: "2 ^ 52 \<le> py_float n * double_1_3"
    unfolding double_1_3_def by simp
  define p where "p = py_float n * double_1_3"
  from p have "min p (2 ^ 52) = 2 ^ 52" "0 \<le> p" by (simp_all add: p_def)
  with round53_lower [of p]
  have "2 ^ 52 \<le> round_half_even p (bit_length p - 53) * 2 ^ (bit_length p - 53)" by simp
  then have "1 \<le> round_half_even p (bit_length p - 53) * 2 ^ (bit_length p - 53) div 2 ^ 52"
    by (simp add: pos_imp_zdiv_pos_iff zdiv_mono1 div_greater_zero_iff)
  then show ?thesis by (simp add: int_mul_1_3_def Let_def p_def)
qed

lemma bit_length_zero: "bit_length 0 = 0"
  by (subst bit_length.simps) simp

lemma int_mul_1_3_zero: "int_mul_1_3 0 = 0"
  by (simp add: int_mul_1_3_def py_float_def round_half_even_def bit_length_zero)

lemma double_product_upper:
  fixes Y p X n k :: int
  assumes "2 * Y \<le> 2 * p + X" "X * 4503599627370496 \<le> p" "13 * n \<le> 10 * k + 9"
    "n < 281474976710656" "p = 5854679515581645 * n"
  shows "Y < (k + 1) * 4503599627370496"
proof -
  have a: "9007199254740992 * Y \<le> 9007199254740993 * p"
    using assms(1,2) by linarith
  have b: "90071992547409920 * Y \<le> 527342649694943507583822198734850 * n"
    using a unfolding assms(5) by linarith
  have c: "527342649694943507583822198734850 * n
      < 405648192073033408478945025720320 * k + 405648192073033408478945025720320"
    using assms(3,4) by linarith
  have "Y < 4503599627370496 * k + 4503599627370496" using b c by linarith
  then show ?thesis by (simp add: algebra_simps)
qed

text \<open>Below \<open>2^48\<close> the double product, truncated, is the exact \<open>\<lfloor>13 n / 10\<rfloor>\<close>.\<close>

lemma int_mul_1_3_exact:
  assumes n0: "0 \<le> n" and nb: "n < 2 ^ 48"
  shows "int_mul_1_3 n = 13 * n div 10"
proof (cases "n = 0")
  case True
  then show ?thesis by (simp add: int_mul_1_3_zero)
next
  case False
  with n0 have n1: "1 \<le> n" by simp
  define p where "p = n * 5854679515581645"
  define s where "s = bit_length p - 53"
  define k where "k = 13 * n div 10"
  define X where "X = (2::int) ^ s"
  define Y where "Y = round_half_even p s * X"
  have pf: "py_float n = n" using n0 nb by (intro py_float_small) simp_all
  have p0: "0 \<le> p" and plow: "2 ^ 52 \<le> p" and phigh: "p < 2 ^ 101"
    using n1 nb by (simp_all add: p_def)
  from plow have "52 < bit_length p" by (rule bit_length_gt)
  moreover from p0 phigh have "bit_length p \<le> 101" by (rule bit_length_le)
  ultimately have bl: "bit_length p - 1 = s + 52" and s52: "s \<le> 52"
    by (simp_all add: s_def)
  have "0 < p" using plow by simp
  from bit_length_bounds [OF this] have "(2::int) ^ (bit_length p - 1) \<le> p" by blast
  then have Xp: "X * 4503599627370496 \<le> p" unfolding bl by (simp add: power_add X_def)
  have Xpos: "0 < X" by (simp add: X_def)
  have k1: "10 * k \<le> 13 * n" and k2: "13 * n \<le> 10 * k + 9"
    unfolding k_def by linarith+
  have up: "2 * Y \<le> 2 * p + X"
    unfolding Y_def X_def using p0 by (rule round_half_even_bounds)
  have kp: "k * 4503599627370496 \<le> p"
    using k1 n0 by (simp add: p_def)
  have "(2::int) ^ 52 = 2 ^ (52 - s) * X"
    using s52 by (simp add: X_def flip: power_add)
  then have kX: "k * 4503599627370496 = k * 2 ^ (52 - s) * X"
    by simp
  have "k * 2 ^ (52 - s) = k * 2 ^ (52 - s) * X div X"
    using Xpos by simp
  also have "\<dots> \<le> p div X"
    using kp Xpos unfolding kX by (intro zdiv_mono1) simp_all
  also have "\<dots> \<le> round_half_even p s"
    unfolding X_def using p0 by (rule round_half_even_bounds)
  finally have "k * 2 ^ (52 - s) * X \<le> round_half_even p s * X"
    using Xpos by simp
  then have low: "k * 4503599627370496 \<le> Y"
    by (simp add: kX Y_def)
  have pn: "p = 5854679515581645 * n" by (simp add: p_def)
  have nb': "n < 281474976710656" using nb by simp
  have high: "Y < (k + 1) * 4503599627370496"
    using up Xp k2 nb' pn by (rule double_product_upper)
  have "Y div 4503599627370496 = k"
    by (rule int_div_pos_eq [where r = "Y - 4503599627370496 * k"]) (use low high in simp_all)
  then show ?thesis
    by (simp add: int_mul_1_3_def Let_def pf double_1_3_def k_def Y_def X_def s_def p_def)
qed

section \<open>Words, trimming and the estimate\<close>

lemma split_ws_words:
  "\<forall>c\<in>set cur. \<not> is_space c \<Longrightarrow>
   \<forall>w\<in>set (split_ws cur s). w \<noteq> [] \<and> (\<forall>c\<in>set w. \<not> is_space c)"
proof (induction s arbitrary: cur)
  case Nil
  then show ?case by simp
next
  case (Cons a s)
  show ?case
  proof (cases "is_space a")
    case True
    with Cons.IH [of "[]"] Cons.prems show ?thesis by auto
  next
    case False
    with Cons.IH [of "cur @ [a]"] Cons.prems show ?thesis by auto
  qed
qed

lemma split_ws_concat:
  "concat (split_ws cur s) = cur @ filter (\<lambda>c. \<not> is_space c) s"
  by (induction s arbitrary: cur) auto

lemma split_ws_length: "length (split_ws cur s) \<le> length s + (if cur = [] then 0 else 1)"
proof (induction s arbitrary: cur)
  case Nil
  show ?case by simp
next
  case (Cons a s)
  from Cons [of "[]"] Cons [of "cur @ [a]"] show ?case
    by (auto split: if_splits)
qed

lemma str_split_length: "length (str_split s) \<le> length s"
  using split_ws_length [of "[]" s] by (simp add: str_split_def)

lemma split_ws_empty: "split_ws cur s = [] \<longleftrightarrow> cur = [] \<and> (\<forall>c\<in>set s. is_space c)"
  by (induction s arbitrary: cur) auto

lemma str_split_empty: "str_split s = [] \<longleftrightarrow> (\<forall>c\<in>set s. is_space c)"
  by (simp add: str_split_def split_ws_empty)

lemma dropWhile_all_iff: "(\<forall>x\<in>set (dropWhile P s). P x) \<longleftrightarrow> (\<forall>x\<in>set s. P x)"
proof
  assume a: "\<forall>x\<in>set (dropWhile P s). P x"
  have "dropWhile P s = []"
  proof (rule ccontr)
    assume n: "dropWhile P s \<noteq> []"
    then have "\<not> P (hd (dropWhile P s))" by (rule hd_dropWhile)
    moreover from n have "hd (dropWhile P s) \<in> set (dropWhile P s)" by simp
    ultimately show False using a by blast
  qed
  then show "\<forall>x\<in>set s. P x" by (simp add: dropWhile_eq_Nil_conv)
next
  assume "\<forall>x\<in>set s. P x"
  then show "\<forall>x\<in>set (dropWhile P s). P x" by (auto dest: set_dropWhileD)
qed

lemma strip_empty: "strip s = [] \<longleftrightarrow> (\<forall>c\<in>set s. is_space c)"
  by (simp add: strip_def dropWhile_eq_Nil_conv dropWhile_all_iff)

lemma estimate_tokens_exact:
  assumes "length txt < 2 ^ 48"
  shows "estimate_tokens txt = 13 * int (length (str_split txt)) div 10"
proof -
  have "length (str_split txt) < 2 ^ 48"
    using assms str_split_length [of "txt"] by linarith
  then have "int (length (str_split txt)) < 2 ^ 48"
    by (metis of_nat_less_iff of_nat_numeral of_nat_power)
  then show ?thesis
    by (simp add: estimate_tokens_def int_mul_1_3_exact)
qed

lemma estimate_tokens_nonneg: "0 \<le> estimate_tokens txt"
proof (cases "str_split txt = []")
  case True
  then show ?thesis by (simp add: estimate_tokens_def int_mul_1_3_zero)
next
  case False
  then have "1 \<le> int (length (str_split txt))" by (cases "str_split txt") auto
  from int_mul_1_3_pos [OF this] show ?thesis by (simp add: estimate_tokens_def)
qed

lemma estimate_tokens_zero_iff: "estimate_tokens txt = 0 \<longleftrightarrow> strip txt = []"
proof (cases "str_split txt = []")
  case True
  then have "strip txt = []" by (simp add: strip_empty str_split_empty)
  with True show ?thesis by (simp add: estimate_tokens_def int_mul_1_3_zero)
next
  case False
  then have "1 \<le> int (length (str_split txt))" by (cases "str_split txt") auto
  from int_mul_1_3_pos [OF this] False show ?thesis
    by (simp add: estimate_tokens_def strip_empty str_split_empty)
qed

section \<open>Evaluation on concrete inputs\<close>

lemmas text_eval = str_split_def is_space_def nl_def strip_def split_paragraphs_def
lemmas splitter_eval = split_plaintext_def split_markdown_def split_session_messages_def
  ChunkSplitter_init_def flush_def Let_def estimate_tokens_exact
lemmas markdown_eval = header_split_def header_scan.simps match_header_def
lemmas message_eval = str_int_def digits.simps

section \<open>The running counter\<close>

lemma dense_empty: "dense ([], 0)"
  by (simp add: dense_def)

lemma dense_append:
  "dense (chunks, n) \<Longrightarrow> ord c = n \<Longrightarrow> dense (chunks @ [c], n + 1)"
  by (simp add: dense_def)

lemma flush_dense: "dense st \<Longrightarrow> dense (flush hdg knd buf st)"
  by (cases st) (simp add: flush_def dense_append)

lemma accumulate_dense:
  "dense (chunks, n) \<Longrightarrow>
   accumulate hdg knd T paras (chunks, buf, toks, n) = (chunks', buf', toks', n') \<Longrightarrow>
   dense (chunks', n')"
proof (induction paras arbitrary: chunks buf toks n)
  case Nil
  then show ?case by simp
next
  case (Cons para paras)
  show ?case
  proof (cases "toks + estimate_tokens para > T")
    case True
    obtain cs m where f: "flush hdg knd buf (chunks, n) = (cs, m)"
      by (cases "flush hdg knd buf (chunks, n)")
    with flush_dense [OF Cons.prems(1), of hdg knd buf] have "dense (cs, m)" by simp
    moreover from Cons.prems(2) True f
    have "accumulate hdg knd T paras (cs, para @ [nl, nl], estimate_tokens para, m)
            = (chunks', buf', toks', n')"
      by simp
    ultimately show ?thesis by (rule Cons.IH)
  next
    case False
    with Cons.prems(2)
    have "accumulate hdg knd T paras (chunks, buf @ para @ [nl, nl], toks + estimate_tokens para, n)
            = (chunks', buf', toks', n')"
      by simp
    with Cons.prems(1) show ?thesis by (rule Cons.IH)
  qed
qed

lemma split_plaintext_dense:
  "map ord (split_plaintext self txt knd) = map int [0..<length (split_plaintext self txt knd)]"
proof -
  obtain cs buf toks n where
    a: "accumulate None knd (max_chunk_tokens self) (split_paragraphs txt) ([], [], 0, 0)
          = (cs, buf, toks, n)"
    by (metis prod_cases4)
  with dense_empty have "dense (cs, n)" by (rule accumulate_dense)
  then have "dense (flush None knd buf (cs, n))" by (rule flush_dense)
  moreover have "split_plaintext self txt knd = fst (flush None knd buf (cs, n))"
    by (simp add: split_plaintext_def a)
  ultimately show ?thesis
    by (cases "flush None knd buf (cs, n)") (simp add: dense_def)
qed

lemma markdown_sections_dense:
  "dense st \<Longrightarrow> dense (markdown_sections T sections st)"
proof (induction T sections st rule: markdown_sections.induct)
  case (1 T level hdg content0 rest chunks n)
  let ?body = "strip content0"
  let ?full = "level @ '' '' @ hdg @ [nl, nl] @ ?body"
  show ?case
  proof (cases "estimate_tokens ?full > T")
    case True
    obtain cs buf toks m where
      a: "accumulate (Some hdg) ''doc'' T (split_paragraphs ?body)
            (chunks, level @ '' '' @ hdg @ [nl, nl],
             estimate_tokens (level @ '' '' @ hdg @ [nl, nl]), n) = (cs, buf, toks, m)"
      by (metis prod_cases4)
    with "1.prems" have "dense (cs, m)" by (rule accumulate_dense)
    then have d: "dense (flush (Some hdg) ''doc'' buf (cs, m))" by (rule flush_dense)
    have "dense (markdown_sections T rest (flush (Some hdg) ''doc'' buf (cs, m)))"
      using True a d by (intro "1.IH"(1)) (auto simp: Let_def)
    with True a show ?thesis by (simp add: Let_def)
  next
    case False
    let ?c = "\<lparr>heading = Some hdg, text = ?full, ord = n, kind = ''doc'',
               token_est = estimate_tokens ?full, hash = Some (compute_hash ?full),
               metadata = None\<rparr>"
    have "dense (chunks @ [?c], n + 1)" using "1.prems" by (intro dense_append) simp_all
    then have "dense (markdown_sections T rest (chunks @ [?c], n + 1))"
      using False by (intro "1.IH"(2)) (auto simp: Let_def)
    with False show ?thesis by (simp add: Let_def)
  qed
qed simp_all

lemma split_markdown_dense:
  "map ord (split_markdown self md) = map int [0..<length (split_markdown self md)]"
proof (cases "header_split md")
  case Nil
  then show ?thesis by (simp add: split_markdown_def)
next
  case (Cons pre sections)
  define st where "st = (if strip pre \<noteq> [] then
      ([\<lparr>heading = None, text = strip pre, ord = 0, kind = ''doc'',
         token_est = estimate_tokens (strip pre), hash = Some (compute_hash (strip pre)),
         metadata = None\<rparr>], 1)
    else ([], 0::int))"
  have "dense st" by (simp add: st_def dense_def)
  then have "dense (markdown_sections (max_chunk_tokens self) sections st)"
    by (rule markdown_sections_dense)
  moreover have "split_markdown self md = fst (markdown_sections (max_chunk_tokens self) sections st)"
    by (simp add: split_markdown_def Cons st_def Let_def)
  ultimately show ?thesis
    by (cases "markdown_sections (max_chunk_tokens self) sections st") (simp add: dense_def)
qed

lemma relabel_dense: "dense st \<Longrightarrow> dense (relabel sid msg ics st)"
proof (induction ics arbitrary: st)
  case Nil
  then show ?case by simp
next
  case (Cons ic ics)
  obtain i c where ic: "ic = (i, c)" by (cases ic)
  obtain chunks n where st: "st = (chunks, n)" by (cases st)
  let ?c = "c\<lparr>ord := n, metadata := Some \<lparr>session_id = sid, message_step = step msg,
              message_role = role msg, sub_chunk = Some (int i)\<rparr>\<rparr>"
  have "dense (chunks @ [?c], n + 1)"
    using Cons.prems unfolding st by (intro dense_append) simp_all
  then have "dense (relabel sid msg ics (chunks @ [?c], n + 1))" by (rule Cons.IH)
  then show ?case by (simp add: ic st)
qed

lemma messages_loop_dense: "dense st \<Longrightarrow> dense (messages_loop self sid msgs st)"
proof (induction msgs arbitrary: st)
  case Nil
  then show ?case by simp
next
  case (Cons msg msgs)
  obtain chunks n where st: "st = (chunks, n)" by (cases st)
  show ?case
  proof (cases "estimate_tokens (content msg) > max_chunk_tokens self")
    case True
    let ?knd = "if role msg = ''assistant'' then ''ai'' else ''note''"
    have "dense (relabel sid msg (enumerate 0 (split_plaintext self (content msg) ?knd)) st)"
      using Cons.prems by (rule relabel_dense)
    then have "dense (messages_loop self sid msgs
        (relabel sid msg (enumerate 0 (split_plaintext self (content msg) ?knd)) st))"
      by (rule Cons.IH)
    with True show ?thesis by (simp add: st Let_def)
  next
    case False
    let ?c = "\<lparr>heading = Some (''Message '' @ str_int (step msg) @ '' ('' @ role msg @ '')''),
       text = content msg, ord = n,
       kind = (if role msg = ''assistant'' then ''ai'' else ''note''),
       token_est = estimate_tokens (content msg),
       hash = Some (compute_hash (content msg)),
       metadata = Some \<lparr>session_id = sid, message_step = step msg,
                          message_role = role msg, sub_chunk = None\<rparr>\<rparr>"
    have "dense (chunks @ [?c], n + 1)"
      using Cons.prems unfolding st by (intro dense_append) simp_all
    then have "dense (messages_loop self sid msgs (chunks @ [?c], n + 1))" by (rule Cons.IH)
    with False show ?thesis by (simp add: st Let_def)
  qed
qed

section \<open>The context loop takes a prefix\<close>

lemma context_loop_prefix:
  "\<exists>k\<le>length rs.
     context_loop mx rs (parts, tot, srcs) =
       (parts @ map format_chunk (take k rs),
        tot + sum_list (map chunk_tokens (take k rs)),
        srcs @ map source_of (take k rs))
     \<and> (\<forall>j. 1 \<le> j \<and> j \<le> k \<longrightarrow> tot + sum_list (map chunk_tokens (take j rs)) \<le> mx)
     \<and> (k < length rs \<longrightarrow> tot + sum_list (map chunk_tokens (take (Suc k) rs)) > mx)"
proof (induction rs arbitrary: parts tot srcs)
  case Nil
  show ?case by simp
next
  case (Cons r rs)
  show ?case
  proof (cases "tot + chunk_tokens r > mx")
    case True
    then show ?thesis by (intro exI [of _ 0]) simp
  next
    case False
    from Cons [of "parts @ [format_chunk r]" "tot + chunk_tokens r" "srcs @ [source_of r]"]
    obtain k where k: "k \<le> length rs"
      and eq: "context_loop mx rs
          (parts @ [format_chunk r], tot + chunk_tokens r, srcs @ [source_of r]) =
        ((parts @ [format_chunk r]) @ map format_chunk (take k rs),
         tot + chunk_tokens r + sum_list (map chunk_tokens (take k rs)),
         (srcs @ [source_of r]) @ map source_of (take k rs))"
      and le: "\<And>j. 1 \<le> j \<Longrightarrow> j \<le> k \<Longrightarrow>
          tot + chunk_tokens r + sum_list (map chunk_tokens (take j rs)) \<le> mx"
      and gt: "k < length rs \<Longrightarrow>
          tot + chunk_tokens r + sum_list (map chunk_tokens (take (Suc k) rs)) > mx"
      by blast
    have "\<forall>j. 1 \<le> j \<and> j \<le> Suc k \<longrightarrow>
        tot + sum_list (map chunk_tokens (take j (r # rs))) \<le> mx"
    proof (intro allI impI)
      fix j assume j: "1 \<le> j \<and> j \<le> Suc k"
      then obtain i where i: "j = Suc i" by (cases j) auto
      show "tot + sum_list (map chunk_tokens (take j (r # rs))) \<le> mx"
      proof (cases "i = 0")
        case True
        with False i show ?thesis by simp
      next
        case False
        with j i le [of i] show ?thesis by (simp add: add.assoc)
      qed
    qed
    with k eq gt False show ?thesis
      by (intro exI [of _ "Suc k"]) (simp add: add.assoc)
  qed
qed

lemma sum_take_mono:
  fixes f :: "'a \<Rightarrow> int"
  assumes "\<forall>x\<in>set xs. 0 \<le> f x" and "i \<le> j"
  shows "sum_list (map f (take i xs)) \<le> sum_list (map f (take j xs))"
proof -
  from \<open>i \<le> j\<close> have "take j xs = take i xs @ take (j - i) (drop i xs)"
    by (metis le_add_diff_inverse take_add)
  moreover have "0 \<le> sum_list (map f (take (j - i) (drop i xs)))"
    using assms(1) by (intro sum_list_nonneg) (auto dest: in_set_takeD in_set_dropD)
  ultimately show ?thesis by simp
qed

section \<open>The message loop in closed form\<close>

lemma relabel_enumerate:
  "relabel sid msg (enumerate k xs) (chunks, n) =
     (chunks @ map (\<lambda>(i, c). c\<lparr>ord := n + int (i - k),
                 metadata := Some \<lparr>session_id = sid, message_step = step msg,
                                    message_role = role msg, sub_chunk = Some (int i)\<rparr>\<rparr>)
               (enumerate k xs),
      n + int (length xs))"
proof (induction xs arbitrary: k chunks n)
  case Nil
  show ?case by simp
next
  case (Cons x xs)
  let ?m = "\<lambda>i. Some \<lparr>session_id = sid, message_step = step msg,
                        message_role = role msg, sub_chunk = Some (int i)\<rparr>"
  have "map (\<lambda>(i, c). c\<lparr>ord := n + 1 + int (i - Suc k), metadata := ?m i\<rparr>) (enumerate (Suc k) xs)
      = map (\<lambda>(i, c). c\<lparr>ord := n + int (i - k), metadata := ?m i\<rparr>) (enumerate (Suc k) xs)"
  proof (rule map_cong [OF refl])
    fix p assume "p \<in> set (enumerate (Suc k) xs)"
    then have "Suc k \<le> fst p" by (auto simp: in_set_enumerate_eq)
    then have "1 + int (fst p - Suc k) = int (fst p - k)" by linarith
    then show "(case p of (i, c) \<Rightarrow> c\<lparr>ord := n + 1 + int (i - Suc k), metadata := ?m i\<rparr>)
        = (case p of (i, c) \<Rightarrow> c\<lparr>ord := n + int (i - k), metadata := ?m i\<rparr>)"
      by (cases p) (simp add: add.assoc)
  qed
  with Cons [of "Suc k" "chunks @ [x\<lparr>ord := n, metadata := ?m k\<rparr>]" "n + 1"]
  show ?case by simp
qed

lemma messages_loop_step:
  "messages_loop self sid (msg # msgs) (chunks, n) =
     messages_loop self sid msgs
       (chunks @ message_block self sid n msg, n + int (length (message_block self sid n msg)))"
  by (simp add: message_block_def Let_def relabel_enumerate [where k = 0, simplified])

lemma message_block_shift:
  "message_block self sid n msg = map (shift n) (message_block self sid 0 msg)"
  by (simp add: message_block_def shift_def Let_def split_def)

lemma shift_shift: "shift n (shift m c) = shift (m + n) c"
  by (simp add: shift_def add.assoc)

lemma messages_loop_shift:
  "messages_loop self sid msgs (chunks, n) =
     (chunks @ map (shift n) (fst (messages_loop self sid msgs ([], 0))),
      n + snd (messages_loop self sid msgs ([], 0)))"
proof (induction msgs arbitrary: chunks n)
  case Nil
  show ?case by simp
next
  case (Cons msg msgs)
  let ?b = "message_block self sid 0 msg"
  let ?l = "int (length ?b)"
  have len: "length (message_block self sid n msg) = length ?b"
    by (subst message_block_shift) simp
  have "messages_loop self sid (msg # msgs) (chunks, n)
      = messages_loop self sid msgs (chunks @ map (shift n) ?b, n + ?l)"
    by (subst messages_loop_step) (simp add: len message_block_shift [of self sid n])
  also have "\<dots> = ((chunks @ map (shift n) ?b)
        @ map (shift (n + ?l)) (fst (messages_loop self sid msgs ([], 0))),
      n + ?l + snd (messages_loop self sid msgs ([], 0)))"
    by (rule Cons)
  finally have a: "messages_loop self sid (msg # msgs) (chunks, n)
      = ((chunks @ map (shift n) ?b)
           @ map (shift (n + ?l)) (fst (messages_loop self sid msgs ([], 0))),
         n + ?l + snd (messages_loop self sid msgs ([], 0)))" .
  have "messages_loop self sid (msg # msgs) ([], 0) = messages_loop self sid msgs (?b, ?l)"
    by (subst messages_loop_step) simp
  also have "\<dots> = (?b @ map (shift ?l) (fst (messages_loop self sid msgs ([], 0))),
      ?l + snd (messages_loop self sid msgs ([], 0)))"
    by (rule Cons)
  finally have b: "messages_loop self sid (msg # msgs) ([], 0)
      = (?b @ map (shift ?l) (fst (messages_loop self sid msgs ([], 0))),
         ?l + snd (messages_loop self sid msgs ([], 0)))" .
  show ?case
    unfolding a b by (simp add: shift_shift add.commute add.assoc add.left_commute)
qed

lemma messages_loop_append:
  "messages_loop self sid (ms1 @ ms2) st = messages_loop self sid ms2 (messages_loop self sid ms1 st)"
proof (induction ms1 arbitrary: st)
  case Nil
  show ?case by simp
next
  case (Cons msg ms1)
  obtain chunks n where st: "st = (chunks, n)" by (cases st)
  show ?case unfolding st append_Cons messages_loop_step by (rule Cons)
qed

section \<open>Only the maximum is read\<close>

lemma split_plaintext_max_only:
  "max_chunk_tokens a = max_chunk_tokens b \<Longrightarrow> split_plaintext a = split_plaintext b"
  by (intro ext) (simp add: split_plaintext_def)

lemma messages_loop_max_only:
  assumes "max_chunk_tokens a = max_chunk_tokens b"
  shows "messages_loop a sid msgs st = messages_loop b sid msgs st"
proof (induction msgs arbitrary: st)
  case Nil
  show ?case by simp
next
  case (Cons msg msgs)
  obtain chunks n where st: "st = (chunks, n)" by (cases st)
  show ?case
    unfolding st using assms by (simp add: Let_def Cons split_plaintext_max_only [OF assms])
qed

section \<open>Splitting with a non-positive budget\<close>

lemma is_space_nl: "is_space nl"
  by (simp add: is_space_def nl_def)

lemma strip_append_space:
  assumes w: "\<forall>c\<in>set w. is_space c"
  shows "strip (s @ w) = strip s"
proof (cases "\<forall>c\<in>set s. is_space c")
  case True
  with w have "\<forall>c\<in>set (s @ w). is_space c" by auto
  then have "strip (s @ w) = []" by (simp only: strip_empty)
  moreover from True have "strip s = []" by (simp only: strip_empty)
  ultimately show ?thesis by simp
next
  case False
  then obtain x where "x \<in> set s" "\<not> is_space x" by blast
  then have "dropWhile is_space (s @ w) = dropWhile is_space s @ w"
    by (rule dropWhile_append1)
  moreover have "dropWhile is_space (rev w @ rev (dropWhile is_space s))
      = dropWhile is_space (rev (dropWhile is_space s))"
    using w by (intro dropWhile_append2) simp
  ultimately show ?thesis by (simp add: strip_def)
qed

lemma strip_paragraph: "strip (p @ [nl, nl]) = strip p"
  by (rule strip_append_space) (simp add: is_space_nl)

lemma strip_blank_append:
  "strip b = [] \<Longrightarrow> strip p = [] \<Longrightarrow> strip (b @ p @ [nl, nl]) = []"
  by (auto simp: strip_empty is_space_nl)

lemma text_flush:
  "map text (fst (flush hdg knd buf (chunks, n)))
     = map text chunks @ (if strip buf \<noteq> [] then [strip buf] else [])"
  by (simp add: flush_def)

lemma accumulate_nonpositive:
  assumes T: "T \<le> 0"
  shows "0 \<le> toks \<Longrightarrow> (toks = 0 \<longrightarrow> strip buf = []) \<Longrightarrow>
    accumulate hdg knd T paras (chunks, buf, toks, n) = (chunks', buf', toks', n') \<Longrightarrow>
    map text (fst (flush hdg knd buf' (chunks', n')))
      = map text chunks @ (if strip buf \<noteq> [] then [strip buf] else [])
          @ map strip (filter (\<lambda>p. strip p \<noteq> []) paras)"
proof (induction paras arbitrary: chunks buf toks n)
  case Nil
  then show ?case by (simp add: text_flush)
next
  case (Cons q paras)
  have q0: "0 \<le> estimate_tokens q" by (rule estimate_tokens_nonneg)
  have qz: "estimate_tokens q = 0 \<longleftrightarrow> strip q = []" by (rule estimate_tokens_zero_iff)
  show ?case
  proof (cases "toks + estimate_tokens q > T")
    case True
    obtain cs m where f: "flush hdg knd buf (chunks, n) = (cs, m)"
      by (cases "flush hdg knd buf (chunks, n)")
    then have cs: "map text cs = map text chunks @ (if strip buf \<noteq> [] then [strip buf] else [])"
      using text_flush [of hdg knd buf chunks n] by simp
    from Cons.prems(3) True f
    have a: "accumulate hdg knd T paras (cs, q @ [nl, nl], estimate_tokens q, m)
        = (chunks', buf', toks', n')"
      by simp
    have "map text (fst (flush hdg knd buf' (chunks', n')))
        = map text cs @ (if strip (q @ [nl, nl]) \<noteq> [] then [strip (q @ [nl, nl])] else [])
            @ map strip (filter (\<lambda>p. strip p \<noteq> []) paras)"
      by (rule Cons.IH [OF q0 _ a]) (simp add: qz strip_paragraph)
    then show ?thesis by (simp add: cs strip_paragraph)
  next
    case False
    with T Cons.prems(1) q0 have z: "toks = 0" "estimate_tokens q = 0" by linarith+
    with Cons.prems(2) qz have b: "strip buf = []" "strip q = []" by simp_all
    from Cons.prems(3) False
    have a: "accumulate hdg knd T paras (chunks, buf @ q @ [nl, nl], toks + estimate_tokens q, n)
        = (chunks', buf', toks', n')"
      by simp
    have "map text (fst (flush hdg knd buf' (chunks', n')))
        = map text chunks
            @ (if strip (buf @ q @ [nl, nl]) \<noteq> [] then [strip (buf @ q @ [nl, nl])] else [])
            @ map strip (filter (\<lambda>p. strip p \<noteq> []) paras)"
      by (rule Cons.IH [OF _ _ a]) (simp_all add: z b strip_blank_append)
    then show ?thesis by (simp add: b strip_blank_append)
  qed
qed

section \<open>Two digests\<close>

lemma sha256_a: "compute_hash ''a'' = ''ca978112ca1bbdcafac231b39a23dc4da786eff8147c4e72b9807785afee48bb''"
  by code_simp

lemma sha256_a_blank:
  "compute_hash ''a\<newline>\<newline>'' = ''a7da489976d0047490617adb4f7a1f27f7af8b52a5176fd002ffe471863520ab''"
  by code_simp

section \<open>The token estimator\<close>

text \<open>
  Claim C6. For every text, \<open>estimate_tokens\<close> is the number of whitespace-delimited words
  multiplied by 1.3 and truncated toward zero, and the estimate of the empty text is 0.
  The words are the non-empty, whitespace-free pieces of the text, which together hold
  all its other characters in order. The estimate is a function of the text alone.
  The double product agrees with the exact one for every text shorter than \<open>2^48\<close>
  characters, which is what the hypothesis says.
\<close>

theorem estimate_tokens_truncated_product:
  assumes "length txt < 2 ^ 48"
  shows "estimate_tokens txt = \<lfloor>real (length (str_split txt)) * 1.3\<rfloor>
    \<and> estimate_tokens [] = 0
    \<and> (\<forall>w\<in>set (str_split txt). w \<noteq> [] \<and> (\<forall>c\<in>set w. \<not> is_space c))
    \<and> concat (str_split txt) = filter (\<lambda>c. \<not> is_space c) txt"
proof -
  have "13 * int n div 10 = \<lfloor>real n * 1.3\<rfloor>" for n :: nat
    by linarith
  with estimate_tokens_exact [OF assms]
  have "estimate_tokens txt = \<lfloor>real (length (str_split txt)) * 1.3\<rfloor>" by simp
  moreover have "estimate_tokens [] = 0"
    by (simp add: estimate_tokens_def str_split_def int_mul_1_3_zero)
  moreover have "\<forall>w\<in>set (str_split txt). w \<noteq> [] \<and> (\<forall>c\<in>set w. \<not> is_space c)"
    unfolding str_split_def by (rule split_ws_words) simp
  moreover have "concat (str_split txt) = filter (\<lambda>c. \<not> is_space c) txt"
    by (simp add: str_split_def split_ws_concat)
  ultimately show ?thesis by blast
qed

theorem estimate_tokens_truncated_product_witness:
  "length ''one two  three four'' < 2 ^ 48
   \<and> estimate_tokens ''one two  three four'' = 5
   \<and> \<lfloor>real (length (str_split ''one two  three four'')) * 1.3\<rfloor> = 5"
proof -
  have l: "length ''one two  three four'' < 2 ^ 48" by simp
  have s: "str_split ''one two  three four'' = [''one'', ''two'', ''three'', ''four'']"
    by (simp add: str_split_def is_space_def)
  have f: "\<lfloor>real (4::nat) * 1.3\<rfloor> = 5" by linarith
  from estimate_tokens_truncated_product [OF l] l s f show ?thesis by simp
qed

section \<open>Budget respect\<close>

text \<open>
  Claim C1 says that a chunk of \<open>split_plaintext\<close> or \<open>split_markdown\<close> has a token
  estimate within the budget unless it is a single paragraph over the budget. The loop
  compares the budget with the sum of the truncated estimates of the paragraphs in the
  buffer, yet the chunk reports the truncated estimate of the whole buffer, which can be
  larger. With the budget 4, four one-word paragraphs, each of estimate 1, sum to 4 and
  stay in one buffer; the chunk made of them has the estimate \<open>\<lfloor>4 * 1.3\<rfloor> = 5\<close>. With the
  default budget 500, two paragraphs of 193 words sum to 500, and their 386 words have
  the estimate 501.
\<close>

theorem budget_overrun_by_rounding:
  "int_mul_1_3 193 + int_mul_1_3 193 = 500 \<and> int_mul_1_3 386 = 501
   \<and> map estimate_tokens (split_paragraphs ''a\<newline>\<newline>b\<newline>\<newline>c\<newline>\<newline>d'') = [1, 1, 1, 1]
   \<and> split_plaintext (ChunkSplitter_init 4 50 50) ''a\<newline>\<newline>b\<newline>\<newline>c\<newline>\<newline>d'' ''doc''
     = [\<lparr>heading = None, text = ''a\<newline>\<newline>b\<newline>\<newline>c\<newline>\<newline>d'', ord = 0, kind = ''doc'',
         token_est = 5,
         hash = Some (compute_hash ''a\<newline>\<newline>b\<newline>\<newline>c\<newline>\<newline>d\<newline>\<newline>''),
         metadata = None\<rparr>]"
proof -
  have "int_mul_1_3 193 = 250" "int_mul_1_3 386 = 501"
    by (simp_all add: int_mul_1_3_exact)
  then show ?thesis
    by (simp add: text_eval splitter_eval)
qed

section \<open>Hash and text\<close>

text \<open>
  Claim C2 says that the hash of a chunk is the SHA-256 digest of its text, so that
  chunks of equal text have equal hashes. In the paragraph loop the text of a chunk is
  the trimmed buffer while the hash is computed from the buffer itself, which ends with
  the blank line appended after the last paragraph. \<open>split_plaintext\<close> on \<open>a\<close> returns a
  chunk of text \<open>a\<close> whose hash is the digest of \<open>a\<close> followed by two newlines, not the
  digest of \<open>a\<close>; \<open>split_markdown\<close> on the same input returns a chunk of the same text
  with the digest of \<open>a\<close>.
\<close>

theorem hash_of_untrimmed_buffer:
  "split_plaintext (ChunkSplitter_init 500 50 50) ''a'' ''doc''
     = [\<lparr>heading = None, text = ''a'', ord = 0, kind = ''doc'', token_est = 1,
         hash = Some ''a7da489976d0047490617adb4f7a1f27f7af8b52a5176fd002ffe471863520ab'',
         metadata = None\<rparr>]
   \<and> compute_hash ''a'' = ''ca978112ca1bbdcafac231b39a23dc4da786eff8147c4e72b9807785afee48bb''
   \<and> split_markdown (ChunkSplitter_init 500 50 50) ''a''
     = [\<lparr>heading = None, text = ''a'', ord = 0, kind = ''doc'', token_est = 1,
         hash = Some ''ca978112ca1bbdcafac231b39a23dc4da786eff8147c4e72b9807785afee48bb'',
         metadata = None\<rparr>]"
  by (simp add: text_eval splitter_eval markdown_eval sha256_a sha256_a_blank)

section \<open>Ord density\<close>

text \<open>
  Claim C3. For a single invocation of \<open>split_plaintext\<close>, of \<open>split_markdown\<close> or of the
  message splitter, the \<open>ord\<close> fields of the returned chunks are exactly
  \<open>0, 1, \<dots>, N - 1\<close> in list order: strictly increasing, without gap or duplicate.
\<close>

theorem ord_density:
  "map ord (split_plaintext self txt knd) = map int [0..<length (split_plaintext self txt knd)]
   \<and> map ord (split_markdown self md) = map int [0..<length (split_markdown self md)]
   \<and> (\<exists>chunks. split_session_messages self (Some row) msgs sid = Inr (chunks, row)
         \<and> map ord chunks = map int [0..<length chunks])"
proof -
  have "dense (messages_loop self sid msgs ([], 0))"
    using dense_empty by (rule messages_loop_dense)
  then have "map ord (fst (messages_loop self sid msgs ([], 0)))
      = map int [0..<length (fst (messages_loop self sid msgs ([], 0)))]"
    by (cases "messages_loop self sid msgs ([], 0)") (simp add: dense_def)
  then show ?thesis
    by (simp add: split_plaintext_dense split_markdown_dense split_session_messages_def)
qed

section \<open>Context budgeting\<close>

text \<open>
  Claim C4. For every ranked candidate sequence and every budget \<open>max_tokens\<close>,
  \<open>build_rag_context\<close> includes a prefix of the candidates, of some length \<open>k\<close>: every
  shorter non-empty prefix and the included one have a cumulative token estimate within
  the budget, the loop stops at the first candidate that would overflow, and, estimates
  being non-negative, every longer prefix overflows, so the included prefix is the
  longest one within the budget. The context is the concatenation of one whole formatted
  block per included candidate, and the source list has one entry per included candidate
  in the same order. If the first candidate alone exceeds the budget, the context and
  the source list are empty. For the estimates 100, 150, 300 and the budget 300, exactly
  the first two candidates are included.
\<close>

theorem build_rag_context_longest_prefix:
  "(\<exists>k\<le>length results.
      build_rag_context results max_tokens =
        (concat (map format_chunk (take k results)), map source_of (take k results))
      \<and> (\<forall>j. 1 \<le> j \<and> j \<le> k \<longrightarrow>
             sum_list (map chunk_tokens (take j results)) \<le> max_tokens)
      \<and> (k < length results \<longrightarrow>
             sum_list (map chunk_tokens (take (Suc k) results)) > max_tokens)
      \<and> ((\<forall>r\<in>set results. 0 \<le> chunk_tokens r) \<longrightarrow>
            (\<forall>j. k < j \<and> j \<le> length results \<longrightarrow>
               sum_list (map chunk_tokens (take j results)) > max_tokens)))
   \<and> (results \<noteq> [] \<and> chunk_tokens (hd results) > max_tokens \<longrightarrow>
        build_rag_context results max_tokens = ([], []))
   \<and> (res_token_est a = Some 100 \<and> res_token_est b = Some 150 \<and> res_token_est c = Some 300 \<longrightarrow>
        build_rag_context [a, b, c] 300 =
          (format_chunk a @ format_chunk b, [source_of a, source_of b]))"
proof (intro conjI)
  from context_loop_prefix [of results max_tokens "[]" 0 "[]"]
  obtain k where k: "k \<le> length results"
    and eq: "context_loop max_tokens results ([], 0, []) =
        (map format_chunk (take k results), sum_list (map chunk_tokens (take k results)),
         map source_of (take k results))"
    and le: "\<forall>j. 1 \<le> j \<and> j \<le> k \<longrightarrow> sum_list (map chunk_tokens (take j results)) \<le> max_tokens"
    and gt: "k < length results \<longrightarrow>
        sum_list (map chunk_tokens (take (Suc k) results)) > max_tokens"
    by auto
  have "\<forall>j. k < j \<and> j \<le> length results \<longrightarrow>
      sum_list (map chunk_tokens (take j results)) > max_tokens"
    if nn: "\<forall>r\<in>set results. 0 \<le> chunk_tokens r"
  proof (intro allI impI)
    fix j assume j: "k < j \<and> j \<le> length results"
    with gt have "max_tokens < sum_list (map chunk_tokens (take (Suc k) results))" by simp
    also have "\<dots> \<le> sum_list (map chunk_tokens (take j results))"
      using nn j by (intro sum_take_mono) simp_all
    finally show "max_tokens < sum_list (map chunk_tokens (take j results))" .
  qed
  with k eq le gt
  show "\<exists>k\<le>length results.
      build_rag_context results max_tokens =
        (concat (map format_chunk (take k results)), map source_of (take k results))
      \<and> (\<forall>j. 1 \<le> j \<and> j \<le> k \<longrightarrow>
             sum_list (map chunk_tokens (take j results)) \<le> max_tokens)
      \<and> (k < length results \<longrightarrow>
             sum_list (map chunk_tokens (take (Suc k) results)) > max_tokens)
      \<and> ((\<forall>r\<in>set results. 0 \<le> chunk_tokens r) \<longrightarrow>
            (\<forall>j. k < j \<and> j \<le> length results \<longrightarrow>
               sum_list (map chunk_tokens (take j results)) > max_tokens))"
    by (intro exI [of _ k]) (simp add: build_rag_context_def)
next
  show "results \<noteq> [] \<and> chunk_tokens (hd results) > max_tokens \<longrightarrow>
        build_rag_context results max_tokens = ([], [])"
    by (cases results) (simp_all add: build_rag_context_def)
next
  show "res_token_est a = Some 100 \<and> res_token_est b = Some 150 \<and> res_token_est c = Some 300 \<longrightarrow>
        build_rag_context [a, b, c] 300 =
          (format_chunk a @ format_chunk b, [source_of a, source_of b])"
    by (simp add: build_rag_context_def chunk_tokens_def)
qed

theorem build_rag_context_longest_prefix_witness:
  "map chunk_tokens
       [\<lparr>chunk_id = 7, res_heading = Some ''Intro'', res_text = ''alpha'',
         res_token_est = Some 100, doc_title = ''Guide'', module = ''SQL'', source = None\<rparr>,
        \<lparr>chunk_id = 3, res_heading = None, res_text = ''beta'',
         res_token_est = Some 150, doc_title = ''Guide'', module = ''SQL'', source = Some ''web''\<rparr>,
        \<lparr>chunk_id = 9, res_heading = Some ''Big'', res_text = ''gamma'',
         res_token_est = Some 300, doc_title = ''Notes'', module = ''SQL'', source = None\<rparr>]
     = [100, 150, 300]
   \<and> build_rag_context
       [\<lparr>chunk_id = 7, res_heading = Some ''Intro'', res_text = ''alpha'',
         res_token_est = Some 100, doc_title = ''Guide'', module = ''SQL'', source = None\<rparr>,
        \<lparr>chunk_id = 3, res_heading = None, res_text = ''beta'',
         res_token_est = Some 150, doc_title = ''Guide'', module = ''SQL'', source = Some ''web''\<rparr>,
        \<lparr>chunk_id = 9, res_heading = Some ''Big'', res_text = ''gamma'',
         res_token_est = Some 300, doc_title = ''Notes'', module = ''SQL'', source = None\<rparr>] 300
     = (''## Intro'' @ [nl, nl] @ ''alpha'' @ [nl, nl]
          @ ''## (no heading)'' @ [nl, nl] @ ''beta'' @ [nl, nl],
        [\<lparr>src_chunk_id = 7, src_doc_title = ''Guide'', src_module = ''SQL'',
          src_heading = Some ''Intro'', src_source = None\<rparr>,
         \<lparr>src_chunk_id = 3, src_doc_title = ''Guide'', src_module = ''SQL'',
          src_heading = None, src_source = Some ''web''\<rparr>])"
  using build_rag_context_longest_prefix
    [of "[\<lparr>chunk_id = 7, res_heading = Some ''Intro'', res_text = ''alpha'',
           res_token_est = Some 100, doc_title = ''Guide'', module = ''SQL'', source = None\<rparr>,
          \<lparr>chunk_id = 3, res_heading = None, res_text = ''beta'',
           res_token_est = Some 150, doc_title = ''Guide'', module = ''SQL'', source = Some ''web''\<rparr>,
          \<lparr>chunk_id = 9, res_heading = Some ''Big'', res_text = ''gamma'',
           res_token_est = Some 300, doc_title = ''Notes'', module = ''SQL'', source = None\<rparr>]"
        300
        "\<lparr>chunk_id = 7, res_heading = Some ''Intro'', res_text = ''alpha'',
          res_token_est = Some 100, doc_title = ''Guide'', module = ''SQL'', source = None\<rparr>"
        "\<lparr>chunk_id = 3, res_heading = None, res_text = ''beta'',
          res_token_est = Some 150, doc_title = ''Guide'', module = ''SQL'', source = Some ''web''\<rparr>"
        "\<lparr>chunk_id = 9, res_heading = Some ''Big'', res_text = ''gamma'',
          res_token_est = Some 300, doc_title = ''Notes'', module = ''SQL'', source = None\<rparr>"]
  by (simp add: format_chunk_def source_of_def chunk_tokens_def)

section \<open>Message ordering continuity\<close>

text \<open>
  Claim C5. The message splitter threads one \<open>ord\<close> counter through the whole message
  sequence: the chunks of a sequence \<open>ms1 @ ms2\<close> are the chunks of \<open>ms1\<close> followed by the
  chunks \<open>ms2\<close> gives alone, renumbered from where those of \<open>ms1\<close> end. The sub-chunks of
  a message over the budget are the chunks of \<open>split_plaintext\<close> on its content, each with
  \<open>sub_chunk\<close> equal to its zero-based index within the message. For three messages of
  which only the second is over the budget and splits in two, the chunks have the
  \<open>ord\<close> values 0, 1, 2, 3 and the two sub-chunks of the second message carry
  \<open>sub_chunk\<close> 0 and 1.
\<close>

theorem message_ordering_continuity:
  "(\<exists>cs1 cs2.
      split_session_messages self (Some row) ms1 sid = Inr (cs1, row)
      \<and> split_session_messages self (Some row) ms2 sid = Inr (cs2, row)
      \<and> split_session_messages self (Some row) (ms1 @ ms2) sid =
            Inr (cs1 @ map (\<lambda>c. c\<lparr>ord := ord c + int (length cs1)\<rparr>) cs2, row))
   \<and> (estimate_tokens (content msg) > max_chunk_tokens self \<longrightarrow>
        split_session_messages self (Some row) [msg] sid =
          Inr (map (\<lambda>(i, c). c\<lparr>ord := int i,
                      metadata := Some \<lparr>session_id = sid, message_step = step msg,
                                         message_role = role msg, sub_chunk = Some (int i)\<rparr>\<rparr>)
                 (enumerate 0 (split_plaintext self (content msg)
                                 (if role msg = ''assistant'' then ''ai'' else ''note''))),
               row))
   \<and> (\<exists>cs. split_session_messages (ChunkSplitter_init 2 50 50) (Some row)
            [\<lparr>step = 1, role = ''user'', content = ''hi''\<rparr>,
             \<lparr>step = 2, role = ''assistant'', content = ''a b\<newline>\<newline>c d''\<rparr>,
             \<lparr>step = 3, role = ''user'', content = ''ok''\<rparr>] sid = Inr (cs, row)
          \<and> map text cs = [''hi'', ''a b'', ''c d'', ''ok'']
          \<and> map ord cs = [0, 1, 2, 3]
          \<and> map (map_option message_step \<circ> metadata) cs = [Some 1, Some 2, Some 2, Some 3]
          \<and> map (map_option sub_chunk \<circ> metadata) cs
                = [Some None, Some (Some 0), Some (Some 1), Some None])"
proof (intro conjI)
  let ?cs1 = "fst (messages_loop self sid ms1 ([], 0))"
  let ?cs2 = "fst (messages_loop self sid ms2 ([], 0))"
  have "dense (messages_loop self sid ms1 ([], 0))"
    using dense_empty by (rule messages_loop_dense)
  then have n: "messages_loop self sid ms1 ([], 0) = (?cs1, int (length ?cs1))"
    by (cases "messages_loop self sid ms1 ([], 0)") (simp add: dense_def)
  have "messages_loop self sid (ms1 @ ms2) ([], 0)
      = messages_loop self sid ms2 (?cs1, int (length ?cs1))"
    by (subst messages_loop_append) (subst n, rule refl)
  also have "\<dots> = (?cs1 @ map (shift (int (length ?cs1))) ?cs2,
      int (length ?cs1) + snd (messages_loop self sid ms2 ([], 0)))"
    by (rule messages_loop_shift)
  finally have "fst (messages_loop self sid (ms1 @ ms2) ([], 0))
      = ?cs1 @ map (\<lambda>c. c\<lparr>ord := ord c + int (length ?cs1)\<rparr>) ?cs2"
    by (simp add: shift_def [abs_def])
  then show "\<exists>cs1 cs2.
      split_session_messages self (Some row) ms1 sid = Inr (cs1, row)
      \<and> split_session_messages self (Some row) ms2 sid = Inr (cs2, row)
      \<and> split_session_messages self (Some row) (ms1 @ ms2) sid =
            Inr (cs1 @ map (\<lambda>c. c\<lparr>ord := ord c + int (length cs1)\<rparr>) cs2, row)"
    by (simp add: split_session_messages_def)
next
  have "messages_loop self sid [msg] ([], 0)
      = ([] @ message_block self sid 0 msg, 0 + int (length (message_block self sid 0 msg)))"
    unfolding messages_loop_step by simp
  then show "estimate_tokens (content msg) > max_chunk_tokens self \<longrightarrow>
        split_session_messages self (Some row) [msg] sid =
          Inr (map (\<lambda>(i, c). c\<lparr>ord := int i,
                      metadata := Some \<lparr>session_id = sid, message_step = step msg,
                                         message_role = role msg, sub_chunk = Some (int i)\<rparr>\<rparr>)
                 (enumerate 0 (split_plaintext self (content msg)
                                 (if role msg = ''assistant'' then ''ai'' else ''note''))),
               row)"
    by (simp add: split_session_messages_def message_block_def del: messages_loop.simps)
next
  show "\<exists>cs. split_session_messages (ChunkSplitter_init 2 50 50) (Some row)
            [\<lparr>step = 1, role = ''user'', content = ''hi''\<rparr>,
             \<lparr>step = 2, role = ''assistant'', content = ''a b\<newline>\<newline>c d''\<rparr>,
             \<lparr>step = 3, role = ''user'', content = ''ok''\<rparr>] sid = Inr (cs, row)
          \<and> map text cs = [''hi'', ''a b'', ''c d'', ''ok'']
          \<and> map ord cs = [0, 1, 2, 3]
          \<and> map (map_option message_step \<circ> metadata) cs = [Some 1, Some 2, Some 2, Some 3]
          \<and> map (map_option sub_chunk \<circ> metadata) cs
                = [Some None, Some (Some 0), Some (Some 1), Some None]"
    by (simp add: text_eval splitter_eval)
qed

theorem message_ordering_continuity_witness:
  "estimate_tokens ''a b\<newline>\<newline>c d'' > 2
   \<and> map (\<lambda>c. (text c, ord c, map_option sub_chunk (metadata c)))
         (fst (projr (split_session_messages (ChunkSplitter_init 2 50 50) (Some ())
            [\<lparr>step = 2, role = ''assistant'', content = ''a b\<newline>\<newline>c d''\<rparr>] 1)))
     = [(''a b'', 0, Some (Some 0)), (''c d'', 1, Some (Some 1))]"
proof -
  have e: "estimate_tokens ''a b\<newline>\<newline>c d'' > 2"
    by (simp add: text_eval estimate_tokens_exact)
  have p: "split_plaintext (ChunkSplitter_init 2 50 50) ''a b\<newline>\<newline>c d'' ''ai''
      = [\<lparr>heading = None, text = ''a b'', ord = 0, kind = ''ai'', token_est = 2,
           hash = Some (compute_hash ''a b\<newline>\<newline>''), metadata = None\<rparr>,
         \<lparr>heading = None, text = ''c d'', ord = 1, kind = ''ai'', token_est = 2,
           hash = Some (compute_hash ''c d\<newline>\<newline>''), metadata = None\<rparr>]"
    by (simp add: text_eval splitter_eval)
  from e message_ordering_continuity
    [of "ChunkSplitter_init 2 50 50" "()" "[]" 1 "[]"
        "\<lparr>step = 2, role = ''assistant'', content = ''a b\<newline>\<newline>c d''\<rparr>"]
  have "split_session_messages (ChunkSplitter_init 2 50 50) (Some ())
            [\<lparr>step = 2, role = ''assistant'', content = ''a b\<newline>\<newline>c d''\<rparr>] 1
      = Inr (map (\<lambda>(i, c). c\<lparr>ord := int i,
                      metadata := Some \<lparr>session_id = 1, message_step = 2,
                                         message_role = ''assistant'', sub_chunk = Some (int i)\<rparr>\<rparr>)
                 (enumerate 0 (split_plaintext (ChunkSplitter_init 2 50 50)
                    ''a b\<newline>\<newline>c d'' ''ai'')), ())"
    by (simp add: ChunkSplitter_init_def)
  with e show ?thesis unfolding p by simp
qed

section \<open>Chunks without text\<close>

text \<open>
  Claim C7 says that no chunk has an empty text after trimming, empty message contents
  being dropped. \<open>split_plaintext\<close> and \<open>split_markdown\<close> test the trimmed buffer before
  every flush; the branch of the message loop for a message within the budget has no
  such test. A message with empty content becomes a chunk with empty text.
\<close>

theorem empty_message_chunk:
  "split_session_messages (ChunkSplitter_init 500 50 50) (Some ())
     [\<lparr>step = 1, role = ''user'', content = ''''\<rparr>] 7
   = Inr ([\<lparr>heading = Some ''Message 1 (user)'', text = '''', ord = 0, kind = ''note'',
            token_est = 0, hash = Some (compute_hash ''''),
            metadata = Some \<lparr>session_id = 7, message_step = 1, message_role = ''user'',
                               sub_chunk = None\<rparr>\<rparr>], ())"
  by (simp add: text_eval splitter_eval message_eval)

section \<open>Configuration is not validated\<close>

text \<open>
  Claim C8 says that a non-positive \<open>max_chunk_tokens\<close> is rejected with a validation
  error, at construction or at the first split. The constructor stores its arguments
  unchecked and no splitter looks at the sign of the budget: with the budget 0 the
  splitter is built and \<open>split_plaintext\<close> returns two chunks, and with the budget -1
  \<open>split_markdown\<close> returns one.
\<close>

theorem validation_counterexample:
  "max_chunk_tokens (ChunkSplitter_init 0 50 50) = 0
   \<and> map text (split_plaintext (ChunkSplitter_init 0 50 50) ''one\<newline>\<newline>two words'' ''doc'')
       = [''one'', ''two words'']
   \<and> map token_est (split_plaintext (ChunkSplitter_init 0 50 50) ''one\<newline>\<newline>two words'' ''doc'')
       = [1, 2]
   \<and> map text (split_markdown (ChunkSplitter_init (-1) 50 50) ''intro'') = [''intro'']"
  by (simp add: text_eval splitter_eval header_split_def header_scan.simps match_header_def)

text \<open>
  Claim C8 as amended. The engine does not validate its configuration: for every
  non-positive \<open>max_chunk_tokens\<close> the constructor succeeds and stores the value
  unchanged, and \<open>split_plaintext\<close> proceeds and returns one chunk for every paragraph that
  is not blank, in order, its text the trimmed paragraph.
\<close>

theorem no_configuration_validation:
  assumes "T \<le> 0"
  shows "max_chunk_tokens (ChunkSplitter_init T mn ov) = T
    \<and> map text (split_plaintext (ChunkSplitter_init T mn ov) txt knd)
        = map strip (filter (\<lambda>p. strip p \<noteq> []) (split_paragraphs txt))"
proof -
  obtain cs buf toks n where
    a: "accumulate None knd T (split_paragraphs txt) ([], [], 0, 0) = (cs, buf, toks, n)"
    by (metis prod_cases4)
  have "map text (fst (flush None knd buf (cs, n)))
      = map text ([] :: chunk list) @ (if strip [] \<noteq> [] then [strip []] else [])
          @ map strip (filter (\<lambda>p. strip p \<noteq> []) (split_paragraphs txt))"
    by (rule accumulate_nonpositive [OF assms _ _ a]) (simp_all add: strip_def)
  then have "map text (split_plaintext (ChunkSplitter_init T mn ov) txt knd)
      = map strip (filter (\<lambda>p. strip p \<noteq> []) (split_paragraphs txt))"
    by (simp add: split_plaintext_def ChunkSplitter_init_def a strip_def)
  then show ?thesis
    by (simp add: ChunkSplitter_init_def)
qed

theorem no_configuration_validation_witness:
  "(-3::int) \<le> 0
   \<and> max_chunk_tokens (ChunkSplitter_init (-3) 50 50) = -3
   \<and> map text (split_plaintext (ChunkSplitter_init (-3) 50 50)
                  ''one\<newline>\<newline>  \<newline>\<newline>two words'' ''doc'')
       = [''one'', ''two words'']"
proof -
  have h: "(-3::int) \<le> 0" by simp
  have p: "split_paragraphs ''one\<newline>\<newline>  \<newline>\<newline>two words'' = [''one'', ''  '', ''two words'']"
    by (simp add: text_eval)
  from no_configuration_validation
    [OF h, of 50 50 "''one\<newline>\<newline>  \<newline>\<newline>two words''" "''doc''"]
  show ?thesis unfolding p by (simp add: strip_def is_space_def)
qed

section \<open>A chunk made of the heading alone\<close>

text \<open>
  Claim C9 says that on overflow the buffer of an oversized markdown section is flushed
  only when it holds more than the heading prefix, so that no chunk consists of the
  heading alone. The test before the flush is that the trimmed buffer is not empty,
  which the prefix alone satisfies. With the budget 2, the section \<open>## A\<close> with the one
  paragraph \<open>b c d\<close>, of estimate 3, yields first a chunk whose text is \<open>## A\<close> and then
  the paragraph.
\<close>

theorem heading_only_chunk:
  "estimate_tokens ''b c d'' = 3
   \<and> split_markdown (ChunkSplitter_init 2 50 50) ''## A\<newline>\<newline>b c d''
     = [\<lparr>heading = Some ''A'', text = ''## A'', ord = 0, kind = ''doc'', token_est = 2,
         hash = Some (compute_hash ''## A\<newline>\<newline>''), metadata = None\<rparr>,
        \<lparr>heading = Some ''A'', text = ''b c d'', ord = 1, kind = ''doc'', token_est = 3,
         hash = Some (compute_hash ''b c d\<newline>\<newline>''), metadata = None\<rparr>]"
  by (simp add: text_eval splitter_eval markdown_eval)

section \<open>Dead configuration\<close>

text \<open>
  Claim C10. Two splitter instances that agree on \<open>max_chunk_tokens\<close>, whatever their
  \<open>min_chunk_tokens\<close> and \<open>overlap_tokens\<close>, return identical chunk lists from
  \<open>split_plaintext\<close>, from \<open>split_markdown\<close> and from the message splitter, on every
  input: the two knobs are stored and never applied.
\<close>

theorem dead_configuration_noninterference:
  assumes "max_chunk_tokens a = max_chunk_tokens b"
  shows "split_plaintext a txt knd = split_plaintext b txt knd
    \<and> split_markdown a md = split_markdown b md
    \<and> split_session_messages a session msgs sid = split_session_messages b session msgs sid"
proof (intro conjI)
  show "split_plaintext a txt knd = split_plaintext b txt knd"
    by (simp add: split_plaintext_max_only [OF assms])
  show "split_markdown a md = split_markdown b md"
    unfolding split_markdown_def assms by (rule refl)
  show "split_session_messages a session msgs sid = split_session_messages b session msgs sid"
    unfolding split_session_messages_def messages_loop_max_only [OF assms] by (rule refl)
qed

theorem dead_configuration_noninterference_witness:
  "max_chunk_tokens (ChunkSplitter_init 2 50 50) = max_chunk_tokens (ChunkSplitter_init 2 0 7)
   \<and> map text (split_plaintext (ChunkSplitter_init 2 0 7) ''a b\<newline>\<newline>c d'' ''doc'')
       = [''a b'', ''c d'']
   \<and> split_plaintext (ChunkSplitter_init 2 50 50) ''a b\<newline>\<newline>c d'' ''doc''
       = split_plaintext (ChunkSplitter_init 2 0 7) ''a b\<newline>\<newline>c d'' ''doc''
   \<and> split_markdown (ChunkSplitter_init 2 50 50) ''## A\<newline>\<newline>b c d''
       = split_markdown (ChunkSplitter_init 2 0 7) ''## A\<newline>\<newline>b c d''
   \<and> split_session_messages (ChunkSplitter_init 2 50 50) (Some ())
         [\<lparr>step = 1, role = ''user'', content = ''a b\<newline>\<newline>c d''\<rparr>] 1
       = split_session_messages (ChunkSplitter_init 2 0 7) (Some ())
         [\<lparr>step = 1, role = ''user'', content = ''a b\<newline>\<newline>c d''\<rparr>] 1"
proof -
  have h: "max_chunk_tokens (ChunkSplitter_init 2 50 50) = max_chunk_tokens (ChunkSplitter_init 2 0 7)"
    by (simp add: ChunkSplitter_init_def)
  have t: "map text (split_plaintext (ChunkSplitter_init 2 0 7) ''a b\<newline>\<newline>c d'' ''doc'')
       = [''a b'', ''c d'']"
    by (simp add: text_eval splitter_eval)
  note n = dead_configuration_noninterference [OF h]
  show ?thesis
    by (intro conjI) (rule h, rule t, rule n [THEN conjunct1], rule n [THEN conjunct2, THEN conjunct1],
      rule n [THEN conjunct2, THEN conjunct2])
qed

end
